theory Spec2Isabelle
  imports Complex_Main "HOL-Library.Multiset" "HOL-Library.Char_ord" "HOL-Library.List_Lexorder"
begin

section \<open>Conventions of the embedding\<close>

text \<open>
  Python \<open>float\<close> values are modelled by \<^typ>\<open>real\<close> (exact arithmetic), Python \<open>int\<close>
  by \<^typ>\<open>int\<close>, lengths and counters that only ever grow from zero by \<^typ>\<open>nat\<close>.
  A Python \<open>dict\<close> whose iteration order matters is an association list in insertion
  order; its keys are distinct. Wall-clock readings (\<open>time.time()\<close>) are explicit
  arguments. Exceptions are values of a sum type, \<open>Inl\<close> carrying the exception.
\<close>

datatype py_error = ZeroDivisionError

section \<open>schemas.py: the data model\<close>

text \<open>\<open>winner: Literal["A", "B", "tie"]\<close>.\<close>

datatype Winner = WinnerA | WinnerB | WinnerTie

record PairwiseComparison =
  response_a :: string
  response_b :: string
  winner :: Winner
  confidence :: real
  reasoning :: string

record ExtractedClaim =
  claim :: string
  supporting_models :: "string list"
  contradicting_models :: "string list"
  confidence :: real
  verification_status :: string
  source :: "string option"

section \<open>claims.py: claim-level agreement\<close>

text \<open>The \<open>for claim in claims\<close> loop of \<open>compute_claim_agreement\<close>; the accumulator is
  the list \<open>agreement_scores\<close>, extended by \<open>append\<close>.\<close>

fun agreement_scores_loop :: "ExtractedClaim list \<Rightarrow> real list \<Rightarrow> real list" where
  "agreement_scores_loop [] agreement_scores = agreement_scores"
| "agreement_scores_loop (c # cs) agreement_scores =
     (let n_support = length (supporting_models c);
          n_contradict = length (contradicting_models c);
          total = n_support + n_contradict
      in if total > 0
         then agreement_scores_loop cs (agreement_scores @ [real n_support / real total])
         else agreement_scores_loop cs agreement_scores)"

definition compute_claim_agreement :: "ExtractedClaim list \<Rightarrow> real" where
  "compute_claim_agreement claims =
     (if claims = [] then 1
      else let agreement_scores = agreement_scores_loop claims []
           in if agreement_scores \<noteq> []
              then sum_list agreement_scores / real (length agreement_scores)
              else 1)"

section \<open>resilience.py: fan-out with a quorum\<close>

text \<open>What awaiting \<open>query_func(model)\<close> under \<open>asyncio.wait_for\<close> does: it returns a value,
  runs into the per-model timeout, raises an \<open>Exception\<close> \<open>e\<close> (kept as \<open>str(e)\<close>), or raises
  a \<open>BaseException\<close> that is not an \<open>Exception\<close>: \<open>asyncio.CancelledError\<close>.\<close>

datatype 'a worker_outcome = Returned 'a | TimedOut | Raised string | Cancelled

text \<open>\<open>ModelQueryError(model, message, recoverable)\<close>; \<open>str\<close> of it is \<open>f"{model}: {message}"\<close>.\<close>

datatype ModelQueryError = ModelQueryError string string bool

fun str_ModelQueryError :: "ModelQueryError \<Rightarrow> string" where
  "str_ModelQueryError (ModelQueryError model message recoverable) = model @ '': '' @ message"

text \<open>\<open>InsufficientResponsesError(required, received, errors)\<close>.\<close>

datatype InsufficientResponsesError = InsufficientResponsesError int int "string list"

text \<open>An entry of \<open>results\<close>: \<open>asyncio.gather(*tasks, return_exceptions=True)\<close> gives, for
  each task, the value it returned or the exception object it raised.\<close>

datatype 'a gather_result =
    Value 'a
  | ModelQueryErrorObject ModelQueryError
  | CancelledErrorObject

text \<open>\<open>query_with_timeout\<close>, followed by what \<open>gather\<close> makes of it: \<open>asyncio.TimeoutError\<close>
  and every other \<open>Exception\<close> become a \<open>ModelQueryError\<close>; a \<open>CancelledError\<close> passes both
  \<open>except\<close> clauses.\<close>

definition query_with_timeout ::
  "(string \<Rightarrow> 'a worker_outcome) \<Rightarrow> string \<Rightarrow> 'a gather_result" where
  "query_with_timeout query_func model =
     (case query_func model of
        Returned v \<Rightarrow> Value v
      | TimedOut \<Rightarrow> ModelQueryErrorObject (ModelQueryError model ''Timeout'' True)
      | Raised e \<Rightarrow> ModelQueryErrorObject (ModelQueryError model e False)
      | Cancelled \<Rightarrow> CancelledErrorObject)"

text \<open>\<open>isinstance(result, Exception)\<close> and \<open>str(result)\<close>.\<close>

fun isinstance_Exception :: "'a gather_result \<Rightarrow> bool" where
  "isinstance_Exception (Value v) = False"
| "isinstance_Exception (ModelQueryErrorObject e) = True"
| "isinstance_Exception CancelledErrorObject = False"

fun str_result :: "'a gather_result \<Rightarrow> string" where
  "str_result (ModelQueryErrorObject e) = str_ModelQueryError e"
| "str_result _ = ''''"

text \<open>The loop over \<open>zip(models, results)\<close>, with the three accumulators
  \<open>successful\<close>, \<open>failed\<close> and \<open>errors\<close>.\<close>

fun collect_results ::
  "(string \<times> 'a gather_result) list \<Rightarrow> 'a gather_result list \<times> string list \<times> string list
     \<Rightarrow> 'a gather_result list \<times> string list \<times> string list" where
  "collect_results [] acc = acc"
| "collect_results ((model, result) # rest) (successful, failed, errors) =
     (if isinstance_Exception result
      then collect_results rest (successful, failed @ [model], errors @ [str_result result])
      else collect_results rest (successful @ [result], failed, errors))"

definition resilient_parallel_query ::
  "(string \<Rightarrow> 'a worker_outcome) \<Rightarrow> string list \<Rightarrow> int \<Rightarrow> bool
     \<Rightarrow> InsufficientResponsesError + ('a gather_result list \<times> string list)" where
  "resilient_parallel_query query_func models min_required allow_partial =
     (let results = map (query_with_timeout query_func) models;
          (successful, failed, errors) = collect_results (zip models results) ([], [], [])
      in if int (length successful) < min_required
         then (if \<not> allow_partial
               then Inl (InsufficientResponsesError min_required (int (length successful)) errors)
               else Inr (successful, failed))
         else Inr (successful, failed))"

text \<open>For the proofs: whether a worker failed with an \<open>Exception\<close> (timeout included).\<close>

fun worker_failed :: "'a worker_outcome \<Rightarrow> bool" where
  "worker_failed TimedOut = True"
| "worker_failed (Raised e) = True"
| "worker_failed _ = False"

section \<open>resilience.py: retry\<close>

text \<open>The zero-argument operation \<open>coro_factory\<close> is modelled by the outcomes of its
  successive invocations: \<open>coro_factory i\<close> is what the \<open>i\<close>-th call (from 0) does: it returns
  a value, raises an \<open>Exception\<close>, or raises a \<open>BaseException\<close> that is not an \<open>Exception\<close>
  (\<open>asyncio.CancelledError\<close>, \<open>KeyboardInterrupt\<close>), which \<open>except Exception\<close> does not catch.\<close>

datatype ('e, 'b, 'a) invocation = Returns 'a | RaisesException 'e | RaisesBaseException 'b

text \<open>How \<open>with_retry\<close> raises: \<open>raise last_error\<close> after the loop, the \<open>BaseException\<close> of an
  invocation passing through, or \<open>raise None\<close>, a \<open>TypeError\<close>, when the loop made no attempt.
  The model returns the outcome of \<open>with_retry\<close>, the delays passed to \<open>asyncio.sleep\<close> in
  order, and the number of invocations made.\<close>

datatype ('e, 'b) raised = Raise 'e | Propagate 'b | RaiseTypeError

text \<open>The loop \<open>for attempt in range(max_retries + 1)\<close>, and the final
  \<open>raise last_error\<close>.\<close>

fun retry_loop ::
  "(nat \<Rightarrow> ('e, 'b, 'a) invocation) \<Rightarrow> int \<Rightarrow> real \<Rightarrow> bool \<Rightarrow> nat list \<Rightarrow> 'e option \<Rightarrow> real list
     \<Rightarrow> nat \<Rightarrow> (('e, 'b) raised + 'a) \<times> real list \<times> nat" where
  "retry_loop coro_factory max_retries base_delay exponential [] last_error sleeps calls =
     (case last_error of None \<Rightarrow> Inl RaiseTypeError | Some e \<Rightarrow> Inl (Raise e), sleeps, calls)"
| "retry_loop coro_factory max_retries base_delay exponential (attempt # rest) last_error sleeps calls =
     (case coro_factory calls of
        Returns v \<Rightarrow> (Inr v, sleeps, calls + 1)
      | RaisesBaseException b \<Rightarrow> (Inl (Propagate b), sleeps, calls + 1)
      | RaisesException e \<Rightarrow>
          if int attempt < max_retries
          then let delay = base_delay * (if exponential then 2 ^ attempt else 1)
               in retry_loop coro_factory max_retries base_delay exponential rest (Some e)
                    (sleeps @ [delay]) (calls + 1)
          else retry_loop coro_factory max_retries base_delay exponential rest (Some e)
                 sleeps (calls + 1))"

definition with_retry ::
  "(nat \<Rightarrow> ('e, 'b, 'a) invocation) \<Rightarrow> int \<Rightarrow> real \<Rightarrow> bool
     \<Rightarrow> (('e, 'b) raised + 'a) \<times> real list \<times> nat" where
  "with_retry coro_factory max_retries base_delay exponential =
     retry_loop coro_factory max_retries base_delay exponential
       [0..<nat (max_retries + 1)] None [] 0"

text \<open>For the proofs: how \<open>with_retry\<close> ends when an invocation does not raise an \<open>Exception\<close>.\<close>

fun ends_with :: "('e, 'b, 'a) invocation \<Rightarrow> (('e, 'b) raised + 'a) option" where
  "ends_with (Returns v) = Some (Inr v)"
| "ends_with (RaisesBaseException b) = Some (Inl (Propagate b))"
| "ends_with (RaisesException e) = None"

section \<open>resilience.py: QueryCache\<close>

text \<open>\<open>hashlib.sha256(...).hexdigest()\<close> is a parameter, \<open>sha256_hexdigest\<close>; the cached
  values have any type \<open>'v\<close>.\<close>

record 'v QueryCache =
  cache :: "string \<rightharpoonup> ('v \<times> real)"
  ttl :: int

definition QueryCache_init :: "int \<Rightarrow> 'v QueryCache" where
  "QueryCache_init ttl_seconds = \<lparr>cache = Map.empty, ttl = ttl_seconds\<rparr>"

definition cache_key :: "(string \<Rightarrow> string) \<Rightarrow> string \<Rightarrow> string \<Rightarrow> string" where
  "cache_key sha256_hexdigest query model = take 32 (sha256_hexdigest (model @ '':'' @ query))"

definition QueryCache_get ::
  "(string \<Rightarrow> string) \<Rightarrow> 'v QueryCache \<Rightarrow> string \<Rightarrow> string \<Rightarrow> real \<Rightarrow> 'v option \<times> 'v QueryCache" where
  "QueryCache_get sha256_hexdigest self query model now =
     (let key = cache_key sha256_hexdigest query model
      in case cache self key of
           Some (value, timestamp) \<Rightarrow>
             if now - timestamp < real_of_int (ttl self) then (Some value, self)
             else (None, self\<lparr>cache := (cache self)(key := None)\<rparr>)
         | None \<Rightarrow> (None, self))"

definition QueryCache_set ::
  "(string \<Rightarrow> string) \<Rightarrow> 'v QueryCache \<Rightarrow> string \<Rightarrow> string \<Rightarrow> 'v \<Rightarrow> real \<Rightarrow> 'v QueryCache" where
  "QueryCache_set sha256_hexdigest self query model value now =
     (let key = cache_key sha256_hexdigest query model
      in self\<lparr>cache := (cache self)(key \<mapsto> (value, now))\<rparr>)"

definition QueryCache_clear :: "'v QueryCache \<Rightarrow> 'v QueryCache" where
  "QueryCache_clear self = self\<lparr>cache := Map.empty\<rparr>"

definition QueryCache_clear_expired :: "'v QueryCache \<Rightarrow> real \<Rightarrow> 'v QueryCache" where
  "QueryCache_clear_expired self now =
     self\<lparr>cache := (\<lambda>k. case cache self k of
                          Some (v, ts) \<Rightarrow> if now - ts \<ge> real_of_int (ttl self) then None else Some (v, ts)
                        | None \<Rightarrow> None)\<rparr>"

text \<open>Histories of calls on one cache, for claims about what was ever set.\<close>

datatype 'v cache_call =
    CallGet string string real
  | CallSet string string 'v real
  | CallClear
  | CallClearExpired real

fun cache_step :: "(string \<Rightarrow> string) \<Rightarrow> 'v QueryCache \<Rightarrow> 'v cache_call \<Rightarrow> 'v QueryCache" where
  "cache_step H self (CallGet query model now) = snd (QueryCache_get H self query model now)"
| "cache_step H self (CallSet query model value now) = QueryCache_set H self query model value now"
| "cache_step H self CallClear = QueryCache_clear self"
| "cache_step H self (CallClearExpired now) = QueryCache_clear_expired self now"

fun cache_run :: "(string \<Rightarrow> string) \<Rightarrow> 'v QueryCache \<Rightarrow> 'v cache_call list \<Rightarrow> 'v QueryCache" where
  "cache_run H self [] = self"
| "cache_run H self (c # cs) = cache_run H (cache_step H self c) cs"

fun sets_key :: "(string \<Rightarrow> string) \<Rightarrow> string \<Rightarrow> 'v cache_call \<Rightarrow> bool" where
  "sets_key H key (CallSet query model value now) = (cache_key H query model = key)"
| "sets_key H key _ = False"

section \<open>resilience.py: CircuitBreaker\<close>

text \<open>The failure counters are only ever set to 0 or incremented: natural numbers.\<close>

record CircuitBreaker =
  failure_threshold :: int
  recovery_timeout :: real
  failures :: "string \<rightharpoonup> nat"
  open_until :: "string \<rightharpoonup> real"


definition is_open :: "CircuitBreaker \<Rightarrow> string \<Rightarrow> real \<Rightarrow> bool \<times> CircuitBreaker" where
  "is_open self model now =
     (case open_until self model of
        Some until \<Rightarrow>
          if now \<ge> until
          then (False, self\<lparr>open_until := (open_until self)(model := None),
                             failures := (failures self)(model \<mapsto> 0)\<rparr>)
          else (True, self)
      | None \<Rightarrow> (False, self))"

definition record_success :: "CircuitBreaker \<Rightarrow> string \<Rightarrow> CircuitBreaker" where
  "record_success self model = self\<lparr>failures := (failures self)(model \<mapsto> 0)\<rparr>"


fun get_available_models :: "CircuitBreaker \<Rightarrow> string list \<Rightarrow> real \<Rightarrow> string list \<times> CircuitBreaker" where
  "get_available_models self [] now = ([], self)"
| "get_available_models self (m # models) now =
     (let (is_open_m, self) = is_open self m now;
          (available, self) = get_available_models self models now
      in (if \<not> is_open_m then m # available else available, self))"



section \<open>evaluation.py: Bradley-Terry scores\<close>

text \<open>An entry of the comparison list: \<open>stage2_pairwise_evaluation\<close> gathers with
  \<open>return_exceptions=True\<close>, so an entry is a \<open>PairwiseComparison\<close> or an exception, and
  \<open>bradley_terry_scores\<close> skips what is not a \<open>PairwiseComparison\<close>.\<close>

datatype gathered = IsPairwiseComparison PairwiseComparison | IsException string

text \<open>The first loop: the set \<open>responses\<close>.\<close>

fun collect_responses :: "gathered list \<Rightarrow> string set \<Rightarrow> string set" where
  "collect_responses [] responses = responses"
| "collect_responses (IsPairwiseComparison c # cs) responses =
     collect_responses cs (insert (response_b c) (insert (response_a c) responses))"
| "collect_responses (IsException e # cs) responses = collect_responses cs responses"

text \<open>\<open>wins\<close> is a dict of dicts with every pair of responses as keys, initially 0: a
  function of two responses. \<open>wins[r][s] += x\<close>:\<close>

definition add_win ::
  "(string \<Rightarrow> string \<Rightarrow> real) \<Rightarrow> string \<Rightarrow> string \<Rightarrow> real \<Rightarrow> (string \<Rightarrow> string \<Rightarrow> real)" where
  "add_win wins r s x = wins(r := (wins r)(s := wins r s + x))"

fun count_wins ::
  "gathered list \<Rightarrow> (string \<Rightarrow> string \<Rightarrow> real) \<Rightarrow> (string \<Rightarrow> string \<Rightarrow> real)" where
  "count_wins [] wins = wins"
| "count_wins (IsException e # cs) wins = count_wins cs wins"
| "count_wins (IsPairwiseComparison c # cs) wins =
     count_wins cs
       (case winner c of
          WinnerA \<Rightarrow> add_win wins (response_a c) (response_b c) (PairwiseComparison.confidence c)
        | WinnerB \<Rightarrow> add_win wins (response_b c) (response_a c) (PairwiseComparison.confidence c)
        | WinnerTie \<Rightarrow>
            add_win
              (add_win wins (response_a c) (response_b c) (0.5 * PairwiseComparison.confidence c))
              (response_b c) (response_a c) (0.5 * PairwiseComparison.confidence c))"

text \<open>\<open>scores[r]\<close>: the keys of \<open>scores\<close> are always exactly \<open>responses\<close>, so the lookup
  does not fail.\<close>

definition getitem :: "(string \<times> real) list \<Rightarrow> string \<Rightarrow> real" where
  "getitem d k = the (map_of d k)"

text \<open>The generator sum of the denominator, left to right; a float division by zero raises
  \<open>ZeroDivisionError\<close>.\<close>

fun denominator_sum ::
  "(string \<Rightarrow> string \<Rightarrow> real) \<Rightarrow> (string \<times> real) list \<Rightarrow> string \<Rightarrow> string list \<Rightarrow> real
     \<Rightarrow> py_error + real" where
  "denominator_sum wins scores r [] acc = Inr acc"
| "denominator_sum wins scores r (s # ss) acc =
     (if s \<noteq> r
      then (if getitem scores r + getitem scores s = 0 then Inl ZeroDivisionError
            else denominator_sum wins scores r ss
                   (acc + (wins r s + wins s r) / (getitem scores r + getitem scores s)))
      else denominator_sum wins scores r ss acc)"

text \<open>The loop \<open>for r in responses\<close> that fills \<open>new_scores\<close>.\<close>

fun new_scores_loop ::
  "(string \<Rightarrow> string \<Rightarrow> real) \<Rightarrow> (string \<times> real) list \<Rightarrow> string list \<Rightarrow> string list
     \<Rightarrow> (string \<times> real) list \<Rightarrow> py_error + (string \<times> real) list" where
  "new_scores_loop wins scores responses [] new_scores = Inr new_scores"
| "new_scores_loop wins scores responses (r # rs) new_scores =
     (let numerator = sum_list (map (wins r) responses)
      in case denominator_sum wins scores r responses 0 of
           Inl e \<Rightarrow> Inl e
         | Inr denominator \<Rightarrow>
             new_scores_loop wins scores responses rs
               (new_scores @ [(r, numerator / max denominator 0.001)]))"

text \<open>\<open>{r: s / total for r, s in new_scores.items()}\<close>.\<close>

fun normalize :: "(string \<times> real) list \<Rightarrow> real \<Rightarrow> py_error + (string \<times> real) list" where
  "normalize [] total' = Inr []"
| "normalize ((r, s) # rest) total' =
     (if total' = 0 then Inl ZeroDivisionError
      else case normalize rest total' of
             Inl e \<Rightarrow> Inl e
           | Inr scores \<Rightarrow> Inr ((r, s / total') # scores))"

text \<open>\<open>for _ in range(20)\<close>, as recursion on the number of rounds left.\<close>

fun iterate ::
  "nat \<Rightarrow> (string \<Rightarrow> string \<Rightarrow> real) \<Rightarrow> string list \<Rightarrow> (string \<times> real) list
     \<Rightarrow> py_error + (string \<times> real) list" where
  "iterate 0 wins responses scores = Inr scores"
| "iterate (Suc k) wins responses scores =
     (case new_scores_loop wins scores responses responses [] of
        Inl e \<Rightarrow> Inl e
      | Inr new_scores \<Rightarrow>
          (case normalize new_scores (sum_list (map snd new_scores)) of
             Inl e \<Rightarrow> Inl e
           | Inr scores' \<Rightarrow> iterate k wins responses scores'))"

definition bradley_terry_scores :: "gathered list \<Rightarrow> py_error + (string \<times> real) list" where
  "bradley_terry_scores comparisons =
     (let responses = collect_responses comparisons {}
      in if responses = {} then Inr []
         else
           let responses = sorted_list_of_set responses;
               scores = map (\<lambda>r. (r, 1)) responses;
               wins = count_wins comparisons (\<lambda>r s. 0)
           in iterate 20 wins responses scores)"

text \<open>For the proofs: what one entry of the comparison list adds to \<open>wins[r][s]\<close>.\<close>

definition win_weight :: "string \<Rightarrow> string \<Rightarrow> gathered \<Rightarrow> real" where
  "win_weight r s e =
     (case e of
        IsException x \<Rightarrow> 0
      | IsPairwiseComparison c \<Rightarrow>
          (case winner c of
             WinnerA \<Rightarrow> (if r = response_a c \<and> s = response_b c then PairwiseComparison.confidence c else 0)
           | WinnerB \<Rightarrow> (if r = response_b c \<and> s = response_a c then PairwiseComparison.confidence c else 0)
           | WinnerTie \<Rightarrow>
               (if r = response_a c \<and> s = response_b c then 0.5 * PairwiseComparison.confidence c else 0) +
               (if r = response_b c \<and> s = response_a c then 0.5 * PairwiseComparison.confidence c else 0)))"

section \<open>evaluation.py: Kendall's W\<close>

text \<open>The dict comprehension \<open>{item: i + 1 for i, item in enumerate(ranking)}\<close>: a later
  occurrence of an item overwrites the rank of an earlier one.\<close>

definition ranks_of :: "string list \<Rightarrow> (string \<rightharpoonup> nat)" where
  "ranks_of ranking =
     fold (\<lambda>(i, item) ranks. ranks(item \<mapsto> i + 1)) (enumerate 0 ranking) Map.empty"

text \<open>One row of the rank matrix: \<open>[ranks.get(item, n_items) for item in items]\<close>.\<close>

definition rank_row :: "nat \<Rightarrow> string list \<Rightarrow> string list \<Rightarrow> nat list" where
  "rank_row n_items items ranking =
     (let ranks = ranks_of ranking
      in map (\<lambda>item. case ranks item of Some r \<Rightarrow> r | None \<Rightarrow> n_items) items)"

text \<open>\<open>rankings\<close> is the dict from judge to ranking, in insertion order. The keys looked up
  are keys of the dict itself (\<open>judges = list(rankings.keys())\<close>), so no lookup fails;
  \<open>judges[0]\<close> is read only when there are at least two judges.\<close>

definition compute_kendalls_w :: "(string \<times> string list) list \<Rightarrow> real" where
  "compute_kendalls_w rankings =
     (if length rankings < 2 then 1
      else
        let judges = map fst rankings;
            items = the (map_of rankings (hd judges));
            n_items = length items;
            n_judges = length judges
        in if n_items < 2 then 1
           else
             let rank_matrix =
                   map (\<lambda>judge. rank_row n_items items (the (map_of rankings judge))) judges;
                 rank_sums = map (\<lambda>i. sum_list (map (\<lambda>row. row ! i) rank_matrix)) [0..<n_items];
                 mean_rank_sum = real (sum_list rank_sums) / real n_items;
                 S = sum_list (map (\<lambda>rs. (real rs - mean_rank_sum) ^ 2) rank_sums);
                 S_max = real_of_int (int n_judges ^ 2 * (int n_items ^ 3 - int n_items)) / 12;
                 W = (if S_max > 0 then S / S_max else 0)
             in min (max W 0) 1)"

text \<open>Two auxiliary notions for the proofs: the rank a judge's list gives an item, and
  the value W as a function of the number of judges, the reference item list and the rank
  sum of every item.\<close>

definition rank_of :: "nat \<Rightarrow> string list \<Rightarrow> string \<Rightarrow> nat" where
  "rank_of n ranking item = (case ranks_of ranking item of Some r \<Rightarrow> r | None \<Rightarrow> n)"

definition kendall_of :: "nat \<Rightarrow> string list \<Rightarrow> (string \<Rightarrow> nat) \<Rightarrow> real" where
  "kendall_of n_judges items rank_sum =
     (let n_items = length items;
          rank_sums = map rank_sum items;
          mean_rank_sum = real (sum_list rank_sums) / real n_items;
          S = sum_list (map (\<lambda>rs. (real rs - mean_rank_sum) ^ 2) rank_sums);
          S_max = real_of_int (int n_judges ^ 2 * (int n_items ^ 3 - int n_items)) / 12;
          W = (if S_max > 0 then S / S_max else 0)
      in min (max W 0) 1)"

section \<open>calibration.py: the predictions table\<close>

text \<open>The SQLite table \<open>predictions\<close>: its rows in rowid order, and the counter of
  \<open>AUTOINCREMENT\<close> (the largest id ever used). The column \<open>id\<close> is the field \<open>id'\<close>.
  \<open>hashlib.sha256(...).hexdigest()\<close> and the timestamp are parameters.\<close>

record prediction_row =
  id' :: nat
  model :: string
  query_hash :: string
  stated_confidence :: real
  prediction :: string
  ground_truth :: "string option"
  correct :: "int option"
  timestamp :: string

record CalibrationTracker =
  predictions :: "prediction_row list"
  sqlite_sequence :: nat

definition CalibrationTracker_init :: CalibrationTracker where
  "CalibrationTracker_init = \<lparr>predictions = [], sqlite_sequence = 0\<rparr>"

definition CalibrationTracker_query_hash :: "(string \<Rightarrow> string) \<Rightarrow> string \<Rightarrow> string" where
  "CalibrationTracker_query_hash sha256_hexdigest query = take 16 (sha256_hexdigest query)"

text \<open>\<open>_check_correctness\<close>, on ASCII text: \<open>str.lower\<close>, \<open>str.strip\<close>, the substring test
  \<open>x in y\<close> and \<open>s.split()[0]\<close> of a stripped string.\<close>

definition py_lower :: "string \<Rightarrow> string" where
  "py_lower s =
     map (\<lambda>c. if CHR ''A'' \<le> c \<and> c \<le> CHR ''Z'' then char_of (of_char c + (32 :: nat)) else c) s"

definition py_isspace :: "char \<Rightarrow> bool" where
  "py_isspace c =
     (c \<in> set [CHR 0x09, CHR 0x0A, CHR 0x0B, CHR 0x0C, CHR 0x0D,
                CHR 0x1C, CHR 0x1D, CHR 0x1E, CHR 0x1F, CHR 0x20])"

definition py_strip :: "string \<Rightarrow> string" where
  "py_strip s = rev (dropWhile py_isspace (rev (dropWhile py_isspace s)))"

fun py_in :: "string \<Rightarrow> string \<Rightarrow> bool" where
  "py_in x [] = (x = [])"
| "py_in x (c # cs) = (take (length x) (c # cs) = x \<or> py_in x cs)"

definition first_word :: "string \<Rightarrow> string" where
  "first_word s = (if s \<noteq> [] then takeWhile (\<lambda>c. \<not> py_isspace c) s else [])"

definition check_correctness :: "string \<Rightarrow> string \<Rightarrow> bool" where
  "check_correctness prediction' ground_truth' =
     (let pred_lower = py_strip (py_lower prediction');
          truth_lower = py_strip (py_lower ground_truth')
      in if pred_lower = truth_lower then True
         else if py_in truth_lower pred_lower \<or> py_in pred_lower truth_lower then True
         else let pred_first = first_word pred_lower;
                  truth_first = first_word truth_lower
              in if pred_first = truth_first \<and> length truth_first > 2 then True
                 else False)"

text \<open>\<open>INSERT OR REPLACE\<close> under \<open>UNIQUE(model, query_hash)\<close>: the rows in conflict are
  deleted, then the new row is inserted with a fresh id and NULL \<open>ground_truth\<close> and
  \<open>correct\<close>.\<close>

definition record_prediction ::
  "(string \<Rightarrow> string) \<Rightarrow> CalibrationTracker \<Rightarrow> string \<Rightarrow> string \<Rightarrow> real \<Rightarrow> string \<Rightarrow> string
     \<Rightarrow> CalibrationTracker" where
  "record_prediction sha256_hexdigest self model' query stated_confidence' prediction' timestamp' =
     (let qhash = CalibrationTracker_query_hash sha256_hexdigest query;
          kept = filter (\<lambda>r. \<not> (model r = model' \<and> query_hash r = qhash)) (predictions self);
          new_id = sqlite_sequence self + 1;
          new_row = \<lparr>id' = new_id, model = model', query_hash = qhash,
                     stated_confidence = stated_confidence', prediction = prediction',
                     ground_truth = None, correct = None, timestamp = timestamp'\<rparr>
      in \<lparr>predictions = kept @ [new_row], sqlite_sequence = new_id\<rparr>)"

text \<open>The loop over \<open>cursor.fetchall()\<close>, one \<open>UPDATE ... WHERE id = ?\<close> per fetched row.\<close>

fun update_fetched ::
  "(nat \<times> string) list \<Rightarrow> string \<Rightarrow> prediction_row list \<Rightarrow> prediction_row list" where
  "update_fetched [] ground_truth' rows = rows"
| "update_fetched ((pred_id, prediction') # rest) ground_truth' rows =
     (let correct' = (if check_correctness prediction' ground_truth' then 1 else 0)
      in update_fetched rest ground_truth'
           (map (\<lambda>r. if id' r = pred_id
                      then r\<lparr>ground_truth := Some ground_truth', correct := Some correct'\<rparr>
                      else r) rows))"

definition record_outcome ::
  "(string \<Rightarrow> string) \<Rightarrow> CalibrationTracker \<Rightarrow> string \<Rightarrow> string \<Rightarrow> CalibrationTracker" where
  "record_outcome sha256_hexdigest self query ground_truth' =
     (let qhash = CalibrationTracker_query_hash sha256_hexdigest query;
          fetched = map (\<lambda>r. (id' r, prediction r))
                      (filter (\<lambda>r. query_hash r = qhash) (predictions self))
      in self\<lparr>predictions := update_fetched fetched ground_truth' (predictions self)\<rparr>)"

text \<open>The constraints SQLite keeps on the table: \<open>PRIMARY KEY\<close>, \<open>UNIQUE(model, query_hash)\<close>,
  and no id above the \<open>AUTOINCREMENT\<close> counter.\<close>

definition table_constraints :: "CalibrationTracker \<Rightarrow> bool" where
  "table_constraints self =
     (distinct (map id' (predictions self)) \<and>
      distinct (map (\<lambda>r. (model r, query_hash r)) (predictions self)) \<and>
      (\<forall>r \<in> set (predictions self). id' r \<le> sqlite_sequence self))"

text \<open>A row after \<open>record_outcome\<close> has reached it.\<close>

definition backfilled :: "string \<Rightarrow> prediction_row \<Rightarrow> prediction_row" where
  "backfilled ground_truth' r =
     r\<lparr>ground_truth := Some ground_truth',
       correct := Some (if check_correctness (prediction r) ground_truth' then 1 else 0)\<rparr>"

section \<open>Proofs: claim-level agreement\<close>

lemma agreement_scores_loop_filter:
  "agreement_scores_loop claims acc =
     acc @ map (\<lambda>c. real (length (supporting_models c)) /
                     real (length (supporting_models c) + length (contradicting_models c)))
             (filter (\<lambda>c. supporting_models c \<noteq> [] \<or> contradicting_models c \<noteq> []) claims)"
  by (induction claims arbitrary: acc) (auto simp: Let_def)

text \<open>
  C9. \<open>compute_claim_agreement\<close> is the mean of supports/(supports+contradicts) over exactly
  the claims that have at least one supporting or contradicting entry; it is 1.0 on the
  empty claim list (and, as the code has it, whenever no claim has a vote).
\<close>

theorem compute_claim_agreement_mean:
  "compute_claim_agreement [] = 1 \<and>
   compute_claim_agreement claims =
     (let voted = filter (\<lambda>c. supporting_models c \<noteq> [] \<or> contradicting_models c \<noteq> []) claims
      in if voted = [] then 1
         else (\<Sum>c\<leftarrow>voted. real (length (supporting_models c)) /
                 real (length (supporting_models c) + length (contradicting_models c)))
              / real (length voted))"
  by (auto simp: compute_claim_agreement_def agreement_scores_loop_filter Let_def)

theorem compute_claim_agreement_mean_witness:
  "compute_claim_agreement
     [\<lparr>claim = ''c1'', supporting_models = [''Response A'', ''Response B''],
        contradicting_models = [''Response C'', ''Response D''], confidence = 0.9,
        verification_status = ''unverified'', source = None\<rparr>,
      \<lparr>claim = ''c2'', supporting_models = [], contradicting_models = [], confidence = 0.5,
        verification_status = ''unverified'', source = None\<rparr>,
      \<lparr>claim = ''c3'', supporting_models = [''Response A''], contradicting_models = [],
        confidence = 0.7, verification_status = ''unverified'', source = None\<rparr>] = 3 / 4"
  using compute_claim_agreement_mean
    [of "[\<lparr>claim = ''c1'', supporting_models = [''Response A'', ''Response B''],
        contradicting_models = [''Response C'', ''Response D''], confidence = 0.9,
        verification_status = ''unverified'', source = None\<rparr>,
      \<lparr>claim = ''c2'', supporting_models = [], contradicting_models = [], confidence = 0.5,
        verification_status = ''unverified'', source = None\<rparr>,
      \<lparr>claim = ''c3'', supporting_models = [''Response A''], contradicting_models = [],
        confidence = 0.7, verification_status = ''unverified'', source = None\<rparr>]"]
  by simp

section \<open>Proofs: fan-out with a quorum\<close>

lemma collect_results_eq:
  "collect_results (zip models (map (query_with_timeout query_func) models)) (successful, failed, errors) =
     (successful @ map (query_with_timeout query_func) (filter (\<lambda>m. \<not> worker_failed (query_func m)) models),
      failed @ filter (\<lambda>m. worker_failed (query_func m)) models,
      errors @ map (\<lambda>m. m @ '': '' @ (case query_func m of Raised e \<Rightarrow> e | _ \<Rightarrow> ''Timeout''))
                 (filter (\<lambda>m. worker_failed (query_func m)) models))"
proof (induction models arbitrary: successful failed errors)
  case Nil
  show ?case by simp
next
  case (Cons m ms)
  show ?case
  proof (cases "query_func m")
    case (Returned v)
    then have "query_with_timeout query_func m = Value v"
      by (simp add: query_with_timeout_def)
    with Returned show ?thesis by (simp add: Cons.IH)
  next
    case TimedOut
    then have "query_with_timeout query_func m = ModelQueryErrorObject (ModelQueryError m ''Timeout'' True)"
      by (simp add: query_with_timeout_def)
    with TimedOut show ?thesis by (simp add: Cons.IH)
  next
    case (Raised e)
    then have "query_with_timeout query_func m = ModelQueryErrorObject (ModelQueryError m e False)"
      by (simp add: query_with_timeout_def)
    with Raised show ?thesis by (simp add: Cons.IH)
  next
    case Cancelled
    then have "query_with_timeout query_func m = CancelledErrorObject"
      by (simp add: query_with_timeout_def)
    with Cancelled show ?thesis by (simp add: Cons.IH)
  qed
qed

text \<open>What the call does on every fan-out: the workers that timed out or raised an
  \<open>Exception\<close> are the failed ones; all others, a cancelled worker too, count as successes.\<close>

lemma resilient_parallel_query_quorum:
  "resilient_parallel_query query_func models min_required allow_partial =
     (let successes = map (query_with_timeout query_func)
                        (filter (\<lambda>m. \<not> worker_failed (query_func m)) models);
          failed = filter (\<lambda>m. worker_failed (query_func m)) models;
          errors = map (\<lambda>m. m @ '': '' @ (case query_func m of Raised e \<Rightarrow> e | _ \<Rightarrow> ''Timeout'')) failed
      in if int (length successes) < min_required \<and> \<not> allow_partial
         then Inl (InsufficientResponsesError min_required (int (length successes)) errors)
         else Inr (successes, failed))"
  using collect_results_eq [of models query_func "[]" "[]" "[]"]
  by (simp add: resilient_parallel_query_def Let_def)

text \<open>The two fan-outs of the specification: four workers, the first and third time out.\<close>

lemma resilient_parallel_query_examples:
  "resilient_parallel_query
     (\<lambda>m. if m = ''w2'' then Returned ''r2'' else if m = ''w4'' then Returned ''r4'' else TimedOut)
     [''w1'', ''w2'', ''w3'', ''w4''] 2 True = Inr ([Value ''r2'', Value ''r4''], [''w1'', ''w3''])"
  "resilient_parallel_query
     (\<lambda>m. if m = ''w2'' then Returned ''r2'' else if m = ''w4'' then Returned ''r4'' else TimedOut)
     [''w1'', ''w2'', ''w3'', ''w4''] 3 False =
       Inl (InsufficientResponsesError 3 2 [''w1: Timeout'', ''w3: Timeout''])"
  by (simp_all add: resilient_parallel_query_quorum query_with_timeout_def)

text \<open>
  C4. A cancelled worker is counted as a success: with two workers, the first cancelled and
  the second returning \<open>r2\<close>, \<open>min_required = 2\<close> and \<open>allow_partial\<close> false, one worker
  succeeded, yet the call returns the \<open>CancelledError\<close> object among the successes, an empty
  list of failed workers, and does not raise \<open>InsufficientResponsesError\<close>.
\<close>

theorem resilient_parallel_query_cancelled_worker:
  "resilient_parallel_query (\<lambda>m. if m = ''w1'' then Cancelled else Returned ''r2'')
     [''w1'', ''w2''] 2 False = Inr ([CancelledErrorObject, Value ''r2''], [])"
  by (simp add: resilient_parallel_query_def query_with_timeout_def)

section \<open>Proofs: Kendall's W\<close>

lemma dict_values_in_key_order:
  assumes "distinct (map fst d)"
  shows "map (\<lambda>k. f (the (map_of d k))) (map fst d) = map (\<lambda>p. f (snd p)) d"
proof -
  have "\<And>p. p \<in> set d \<Longrightarrow> map_of d (fst p) = Some (snd p)"
    using assms by (simp add: map_of_is_SomeI)
  then show ?thesis by simp
qed

lemma dict_first_value:
  "d \<noteq> [] \<Longrightarrow> the (map_of d (hd (map fst d))) = snd (hd d)"
  by (cases d) auto

lemma rank_row_rank_of: "rank_row n items ranking = map (rank_of n ranking) items"
  by (simp add: rank_row_def rank_of_def Let_def)

lemma column_sums:
  "map (\<lambda>i. sum_list (map (\<lambda>row. row ! i) (map (\<lambda>r. map (g r) items) rs))) [0..<length items] =
   map (\<lambda>item. sum_list (map (\<lambda>r. g r item) rs)) items"
proof -
  have "map (\<lambda>i. sum_list (map (\<lambda>row. row ! i) (map (\<lambda>r. map (g r) items) rs))) [0..<length items] =
        map (\<lambda>i. (\<lambda>item. sum_list (map (\<lambda>r. g r item) rs)) (items ! i)) [0..<length items]"
    by (simp add: comp_def)
  also have "\<dots> = map (\<lambda>item. sum_list (map (\<lambda>r. g r item) rs)) items"
    by (rule nth_equalityI) simp_all
  finally show ?thesis .
qed

lemma sum_list_rank_perm:
  assumes "mset rs' = mset rs"
  shows "sum_list (map (\<lambda>r. (g r :: nat)) rs') = sum_list (map g rs)"
proof -
  have "mset (map g rs') = mset (map g rs)"
    using assms by (metis mset_map)
  then show ?thesis by (metis sum_mset_sum_list)
qed

lemma sum_list_real_perm:
  assumes "mset xs' = mset xs"
  shows "sum_list (map (\<lambda>x. (h x :: real)) xs') = sum_list (map h xs)"
proof -
  have "mset (map h xs') = mset (map h xs)"
    using assms by (metis mset_map)
  then show ?thesis by (metis sum_mset_sum_list)
qed

lemma compute_kendalls_w_unfold:
  assumes "distinct (map fst rankings)" "2 \<le> length rankings"
  shows "compute_kendalls_w rankings =
     (let items = snd (hd rankings) in
      if length items < 2 then 1
      else kendall_of (length rankings) items
             (\<lambda>item. sum_list (map (\<lambda>p. rank_of (length items) (snd p) item) rankings)))"
proof -
  have ne: "rankings \<noteq> []" using assms(2) by auto
  have rows: "map (\<lambda>judge. rank_row n items (the (map_of rankings judge))) (map fst rankings) =
        map (\<lambda>p. map (rank_of n (snd p)) items) rankings" for n items
    using dict_values_in_key_order [OF assms(1), of "rank_row n items"]
    by (simp add: rank_row_rank_of)
  have items: "the (map_of rankings (hd (map fst rankings))) = snd (hd rankings)"
    using dict_first_value [OF ne] .
  have "\<not> length rankings < 2" using assms(2) by simp
  then show ?thesis
    unfolding compute_kendalls_w_def Let_def items rows column_sums kendall_of_def length_map
    by simp
qed

lemma kendall_of_perm:
  assumes "mset items' = mset items" "\<And>item. f' item = f item"
  shows "kendall_of n items' f' = kendall_of n items f"
proof -
  have len: "length items' = length items"
    using assms(1) by (metis size_mset)
  have ff: "f' = f" using assms(2) by auto
  have s1: "sum_list (map f items') = sum_list (map f items)"
    using sum_list_rank_perm [OF assms(1)] .
  have s2: "sum_list (map (\<lambda>x. (real (f x) - m) ^ 2) items') = sum_list (map (\<lambda>x. (real (f x) - m) ^ 2) items)" for m
    using sum_list_real_perm [OF assms(1), of "\<lambda>x. (real (f x) - m) ^ 2"] .
  show ?thesis
    by (simp add: kendall_of_def Let_def len ff s1 comp_def s2)
qed

text \<open>
  C8. With fewer than two judges, or with fewer than two items in the reference list (the
  ranking of the first judge, from which the code takes \<open>n_items\<close>),
  \<open>compute_kendalls_w\<close> returns exactly 1.0.
\<close>

theorem compute_kendalls_w_trivial:
  "length rankings < 2 \<or> (\<exists>judge items rest. rankings = (judge, items) # rest \<and> length items < 2)
     \<Longrightarrow> compute_kendalls_w rankings = 1"
  by (auto simp add: compute_kendalls_w_def Let_def)

theorem compute_kendalls_w_trivial_witness:
  "compute_kendalls_w [(''judge1'', [''Response A'', ''Response B'', ''Response C''])] = 1 \<and>
   compute_kendalls_w [(''judge1'', [''Response A'']), (''judge2'', [''Response A''])] = 1"
  using
    compute_kendalls_w_trivial [of "[(''judge1'', [''Response A'', ''Response B'', ''Response C''])]"]
    compute_kendalls_w_trivial [of "[(''judge1'', [''Response A'']), (''judge2'', [''Response A''])]"]
  by simp

text \<open>
  C1. The reference item list is the ranking of the first judge only, so the order of the
  judges changes the value when the first judge omits an item: with judge1 ranking
  A, B, C and judge2 ranking B, A the value is 0.75 with judge1 first and 0 with judge2
  first.
\<close>

theorem compute_kendalls_w_first_judge_omits:
  "mset [(''judge2'', [''Response B'', ''Response A'']), (''judge1'', [''Response A'', ''Response B'', ''Response C''])] =
   mset [(''judge1'', [''Response A'', ''Response B'', ''Response C'']), (''judge2'', [''Response B'', ''Response A''])] \<and>
   compute_kendalls_w [(''judge1'', [''Response A'', ''Response B'', ''Response C'']), (''judge2'', [''Response B'', ''Response A''])] = 3 / 4 \<and>
   compute_kendalls_w [(''judge2'', [''Response B'', ''Response A'']), (''judge1'', [''Response A'', ''Response B'', ''Response C''])] = 0"
  by (simp add: compute_kendalls_w_def rank_row_def ranks_of_def Let_def enumerate_eq_zip upt_rec)

subsection \<open>What holds of the value for every input\<close>

text \<open>The value lies in [0,1]; and two orders of the judges give the same value whenever
  the first judge's list is the same up to the order of its items (omitted items of the
  other judges included).\<close>

lemma compute_kendalls_w_range:
  "0 \<le> compute_kendalls_w rankings \<and> compute_kendalls_w rankings \<le> 1"
  by (simp add: compute_kendalls_w_def Let_def)

lemma compute_kendalls_w_same_reference:
  assumes d: "distinct (map fst rankings)" and m: "mset rankings' = mset rankings"
    and i12: "mset (snd (hd rankings')) = mset (snd (hd rankings))"
  shows "compute_kendalls_w rankings' = compute_kendalls_w rankings"
proof -
  have len: "length rankings' = length rankings" using m by (metis size_mset)
  have set_eq: "set rankings' = set rankings" using m by (metis set_mset_mset)
  have d': "distinct (map fst rankings')"
    using d m by (metis distinct_map mset_eq_imp_distinct_iff set_eq)
  show ?thesis
  proof (cases "length rankings < 2")
    case True
    then show ?thesis using len by (simp add: compute_kendalls_w_def)
  next
    case False
    then have l2: "2 \<le> length rankings" and l2': "2 \<le> length rankings'" using len by auto
    have n: "length (snd (hd rankings')) = length (snd (hd rankings))"
      using i12 by (metis size_mset)
    have sums: "sum_list (map (\<lambda>p. rank_of k (snd p) item) rankings') =
          sum_list (map (\<lambda>p. rank_of k (snd p) item) rankings)" for k item
      using sum_list_rank_perm [OF m] .
    show ?thesis
      unfolding compute_kendalls_w_unfold [OF d l2] compute_kendalls_w_unfold [OF d' l2'] Let_def n
      using kendall_of_perm [OF i12] sums len by simp
  qed
qed

section \<open>Proofs: Bradley-Terry scores\<close>

lemma collect_responses_no_comparison:
  "\<forall>e \<in> set comparisons. \<exists>x. e = IsException x \<Longrightarrow>
     collect_responses comparisons responses = responses"
proof (induction comparisons arbitrary: responses)
  case Nil
  show ?case by simp
next
  case (Cons e es)
  then obtain x where "e = IsException x" by auto
  with Cons show ?case by simp
qed

text \<open>
  C10. When no entry of the comparison list is a \<open>PairwiseComparison\<close> (so that the list
  mentions no response; in particular when it is empty), \<open>bradley_terry_scores\<close> returns
  the empty score map and raises nothing.
\<close>

theorem bradley_terry_scores_no_response:
  "\<forall>e \<in> set comparisons. \<exists>x. e = IsException x \<Longrightarrow> bradley_terry_scores comparisons = Inr []"
  by (simp add: bradley_terry_scores_def collect_responses_no_comparison)

theorem bradley_terry_scores_no_response_witness:
  "bradley_terry_scores [] = Inr [] \<and>
   bradley_terry_scores [IsException ''Timeout'', IsException ''Timeout''] = Inr []"
  using bradley_terry_scores_no_response [of "[]"]
    bradley_terry_scores_no_response [of "[IsException ''Timeout'', IsException ''Timeout'']"]
  by simp

text \<open>
  C2. On the comparison list "A beats B, A beats C" the scores of B and C are 0 after the
  first round, and the second round divides by \<open>scores[B] + scores[C] = 0\<close>: the call
  raises \<open>ZeroDivisionError\<close> instead of returning scores that sum to 1.
\<close>

theorem bradley_terry_scores_division_by_zero:
  "bradley_terry_scores
     [IsPairwiseComparison
        \<lparr>response_a = ''Response A'', response_b = ''Response B'', winner = WinnerA,
          PairwiseComparison.confidence = 1, reasoning = ''''\<rparr>,
      IsPairwiseComparison
        \<lparr>response_a = ''Response A'', response_b = ''Response C'', winner = WinnerA,
          PairwiseComparison.confidence = 1, reasoning = ''''\<rparr>] = Inl ZeroDivisionError"
  by code_simp

subsection \<open>What holds of the scores when the call returns\<close>

text \<open>When \<open>bradley_terry_scores\<close> returns a non-empty score map, the scores sum to 1; and
  its outcome, scores or exception, does not depend on the order of the comparison list.\<close>

lemma new_scores_loop_length:
  "new_scores_loop wins scores responses rs acc = Inr new_scores \<Longrightarrow>
     length new_scores = length acc + length rs"
proof (induction rs arbitrary: acc)
  case Nil
  then show ?case by simp
next
  case (Cons r rs)
  then show ?case by (auto simp: Let_def split: sum.splits)
qed

lemma normalize_returns:
  "normalize new_scores t = Inr scores \<Longrightarrow> new_scores \<noteq> [] \<Longrightarrow>
     t \<noteq> 0 \<and> map fst scores = map fst new_scores \<and> map snd scores = map (\<lambda>s. s / t) (map snd new_scores)"
proof (induction new_scores arbitrary: scores)
  case Nil
  then show ?case by simp
next
  case (Cons p ps)
  obtain r s where p: "p = (r, s)" by (cases p)
  from Cons.prems(1) have t: "t \<noteq> 0" by (auto simp: p split: if_splits)
  from Cons.prems(1) t obtain rest where rest: "normalize ps t = Inr rest" "scores = (r, s / t) # rest"
    by (auto simp: p split: sum.splits)
  show ?case
  proof (cases "ps = []")
    case True
    then show ?thesis using rest t by (simp add: p)
  next
    case False
    then show ?thesis using Cons.IH [OF rest(1)] rest t by (simp add: p)
  qed
qed

lemma normalize_sum:
  assumes "normalize new_scores (sum_list (map snd new_scores)) = Inr scores" "new_scores \<noteq> []"
  shows "sum_list (map snd scores) = 1"
proof -
  let ?t = "sum_list (map snd new_scores)"
  have t: "?t \<noteq> 0" and m: "map snd scores = map (\<lambda>s. s / ?t) (map snd new_scores)"
    using normalize_returns [OF assms] by auto
  have "sum_list (map (\<lambda>s. s / c) xs) = sum_list xs / c" for c :: real and xs
    by (induction xs) (simp_all add: add_divide_distrib)
  then have "sum_list (map (\<lambda>s. s / ?t) (map snd new_scores)) = ?t / ?t"
    by blast
  then show ?thesis using t m by simp
qed

lemma iterate_sum:
  assumes "iterate (Suc k) wins responses scores0 = Inr scores" "responses \<noteq> []"
  shows "sum_list (map snd scores) = 1"
  using assms
proof (induction k arbitrary: scores0)
  case 0
  then obtain ns where ns: "new_scores_loop wins scores0 responses responses [] = Inr ns"
      "normalize ns (sum_list (map snd ns)) = Inr scores"
    by (auto split: sum.splits)
  have "ns \<noteq> []" using new_scores_loop_length [OF ns(1)] 0 by auto
  then show ?case using normalize_sum ns by blast
next
  case (Suc k)
  from Suc.prems(1) obtain s1 where "iterate (Suc k) wins responses s1 = Inr scores"
    by (auto split: sum.splits)
  then show ?case using Suc.IH Suc.prems(2) by blast
qed

lemma bradley_terry_scores_sum_when_returned:
  assumes "bradley_terry_scores comparisons = Inr scores" "scores \<noteq> []"
  shows "sum_list (map snd scores) = 1"
proof -
  have ne: "collect_responses comparisons {} \<noteq> {}"
    using assms by (auto simp: bradley_terry_scores_def)
  moreover have fin: "finite (collect_responses comparisons R)" if "finite R" for R
    using that by (induction comparisons R rule: collect_responses.induct) auto
  ultimately have "sorted_list_of_set (collect_responses comparisons {}) \<noteq> []"
    by (metis finite.emptyI sorted_list_of_set_eq_Nil_iff)
  moreover have "iterate (Suc 19) (count_wins comparisons (\<lambda>r s. 0))
       (sorted_list_of_set (collect_responses comparisons {}))
       (map (\<lambda>r. (r, 1)) (sorted_list_of_set (collect_responses comparisons {}))) = Inr scores"
    using assms(1) ne by (simp add: bradley_terry_scores_def Let_def eval_nat_numeral)
  ultimately show ?thesis using iterate_sum by blast
qed


lemma add_win_apply:
  "add_win wins a b x r s = wins r s + (if r = a \<and> s = b then x else 0)"
  by (simp add: add_win_def)

lemma add_win_tie:
  "add_win (add_win wins a b x) b a x r s =
     wins r s + ((if r = a \<and> s = b then x else 0) + (if r = b \<and> s = a then x else 0))"
  by (simp add: add_win_apply)

lemma win_weight_tie:
  "winner c = WinnerTie \<Longrightarrow> win_weight r s (IsPairwiseComparison c) =
     (if r = response_a c \<and> s = response_b c then 0.5 * PairwiseComparison.confidence c else 0) +
     (if r = response_b c \<and> s = response_a c then 0.5 * PairwiseComparison.confidence c else 0)"
  unfolding win_weight_def by (simp only: gathered.case Winner.case)

lemma count_wins_step_tie:
  assumes "winner c = WinnerTie"
    and IH: "\<And>wins. count_wins cs wins r s = wins r s + sum_list (map (win_weight r s) cs)"
  shows "count_wins (IsPairwiseComparison c # cs) wins r s =
         wins r s + sum_list (map (win_weight r s) (IsPairwiseComparison c # cs))"
proof -
  have "count_wins (IsPairwiseComparison c # cs) wins r s =
        count_wins cs (add_win
              (add_win wins (response_a c) (response_b c) (0.5 * PairwiseComparison.confidence c))
              (response_b c) (response_a c) (0.5 * PairwiseComparison.confidence c)) r s"
    using assms(1) by (simp only: count_wins.simps Winner.case)
  also have "\<dots> = add_win
              (add_win wins (response_a c) (response_b c) (0.5 * PairwiseComparison.confidence c))
              (response_b c) (response_a c) (0.5 * PairwiseComparison.confidence c) r s +
              sum_list (map (win_weight r s) cs)"
    by (rule IH)
  also have "\<dots> = wins r s + (win_weight r s (IsPairwiseComparison c) + sum_list (map (win_weight r s) cs))"
    unfolding add_win_tie win_weight_tie [OF assms(1)] by (simp only: add.assoc)
  finally show ?thesis by (simp only: list.map sum_list.Cons)
qed

lemma count_wins_apply:
  "count_wins comparisons wins r s = wins r s + sum_list (map (win_weight r s) comparisons)"
proof (induction comparisons arbitrary: wins)
  case Nil
  show ?case by simp
next
  case (Cons e cs)
  show ?case
  proof (cases e)
    case (IsException x)
    then show ?thesis by (simp add: Cons.IH win_weight_def)
  next
    case (IsPairwiseComparison c)
    show ?thesis
    proof (cases "winner c")
      case WinnerA
      then show ?thesis
        unfolding IsPairwiseComparison by (simp add: Cons.IH add_win_apply win_weight_def)
    next
      case WinnerB
      then show ?thesis
        unfolding IsPairwiseComparison by (simp add: Cons.IH add_win_apply win_weight_def)
    next
      case WinnerTie
      then show ?thesis
        unfolding IsPairwiseComparison using count_wins_step_tie Cons.IH by blast
    qed
  qed
qed

lemma collect_responses_set:
  "collect_responses comparisons R =
     R \<union> (\<Union>e \<in> set comparisons. case e of IsPairwiseComparison c \<Rightarrow> {response_a c, response_b c}
                                       | IsException x \<Rightarrow> {})"
  by (induction comparisons R rule: collect_responses.induct) auto

lemma bradley_terry_scores_insertion_order:
  assumes "mset comparisons' = mset comparisons"
  shows "bradley_terry_scores comparisons' = bradley_terry_scores comparisons"
proof -
  have "set comparisons' = set comparisons" using assms by (metis set_mset_mset)
  then have r: "collect_responses comparisons' {} = collect_responses comparisons {}"
    by (simp add: collect_responses_set)
  have "sum_list (map (win_weight r s) comparisons') = sum_list (map (win_weight r s) comparisons)" for r s
    using sum_list_real_perm [OF assms] .
  then have "count_wins comparisons' (\<lambda>r s. 0) r s = count_wins comparisons (\<lambda>r s. 0) r s" for r s
    by (simp add: count_wins_apply)
  then have w: "count_wins comparisons' (\<lambda>r s. 0) = count_wins comparisons (\<lambda>r s. 0)"
    by (intro ext)
  show ?thesis by (simp add: bradley_terry_scores_def Let_def r w)
qed

section \<open>Proofs: retry\<close>

lemma retry_loop_stops:
  assumes "\<forall>i. a \<le> i \<and> i < k \<longrightarrow> (\<exists>e. f i = RaisesException e)" "ends_with (f k) = Some out"
    "a \<le> k" "k < m" "int m \<le> mr + 1"
  shows "retry_loop f mr bd ex [a..<m] lst sleeps a =
           (out, sleeps @ map (\<lambda>i. bd * (if ex then 2 ^ i else 1)) [a..<k], k + 1)"
  using assms
proof (induction "k - a" arbitrary: a lst sleeps)
  case 0
  then have ak: "a = k" by simp
  have up: "[k..<m] = k # [Suc k..<m]" using 0 by (simp add: upt_conv_Cons)
  show ?case
    unfolding ak up using 0(3) by (cases "f k") simp_all
next
  case (Suc d)
  then have lt: "a < k" by simp
  then obtain e where e: "f a = RaisesException e" using Suc.prems(1) by auto
  have up: "[a..<m] = a # [Suc a..<m]" using lt Suc.prems by (simp add: upt_conv_Cons)
  have up2: "[a..<k] = a # [Suc a..<k]" using lt by (simp add: upt_conv_Cons)
  have am: "int a < mr" using lt Suc.prems by simp
  have IH: "retry_loop f mr bd ex [Suc a..<m] lst' sleeps' (Suc a) =
           (out, sleeps' @ map (\<lambda>i. bd * (if ex then 2 ^ i else 1)) [Suc a..<k], k + 1)" for lst' sleeps'
    using Suc.hyps(1) [of "Suc a" lst' sleeps'] Suc.hyps(2) Suc.prems lt by auto
  show ?case
    unfolding up up2 using e am IH by (simp add: Let_def)
qed

lemma retry_loop_exhausted:
  assumes "\<forall>i. a \<le> i \<and> i < m \<longrightarrow> (\<exists>e. f i = RaisesException e)" "a < m" "int m = mr + 1"
    "f (m - 1) = RaisesException e_last"
  shows "retry_loop f mr bd ex [a..<m] lst sleeps a =
           (Inl (Raise e_last), sleeps @ map (\<lambda>i. bd * (if ex then 2 ^ i else 1)) [a..<m - 1], m)"
  using assms
proof (induction "m - a" arbitrary: a lst sleeps)
  case 0
  then show ?case by simp
next
  case (Suc d)
  obtain e where e: "f a = RaisesException e" using Suc.prems by auto
  have up: "[a..<m] = a # [Suc a..<m]" using Suc.prems by (simp add: upt_conv_Cons)
  show ?case
  proof (cases "Suc a = m")
    case True
    then have "\<not> int a < mr" using Suc.prems by simp
    moreover have "e = e_last" using True e Suc.prems(4) by auto
    ultimately show ?thesis unfolding up using e True by simp
  next
    case False
    then have lt: "Suc a < m" using Suc.prems by simp
    have am: "int a < mr" using lt Suc.prems by simp
    have up2: "[a..<m - 1] = a # [Suc a..<m - 1]" using lt by (simp add: upt_conv_Cons)
    have IH: "retry_loop f mr bd ex [Suc a..<m] lst' sleeps' (Suc a) =
           (Inl (Raise e_last), sleeps' @ map (\<lambda>i. bd * (if ex then 2 ^ i else 1)) [Suc a..<m - 1], m)" for lst' sleeps'
      using Suc.hyps(1) [of "Suc a" lst' sleeps'] Suc.hyps(2) Suc.prems lt by auto
    show ?thesis unfolding up up2 using e am IH by (simp add: Let_def)
  qed
qed

lemma retry_loop_calls:
  "snd (snd (retry_loop f mr bd ex attempts lst sleeps calls)) \<le> calls + length attempts"
proof (induction attempts arbitrary: lst sleeps calls)
  case Nil
  show ?case by simp
next
  case (Cons a attempts)
  have "snd (snd (retry_loop f mr bd ex attempts lst' sleeps' (calls + 1))) \<le> calls + 1 + length attempts"
    for lst' sleeps'
    using Cons [of lst' sleeps' "calls + 1"] .
  then show ?case
    by (cases "f calls") (auto simp: Let_def le_SucI)
qed

text \<open>
  C7. For \<open>max_retries \<ge> 0\<close> and every operation, \<open>with_retry\<close> invokes it at most
  \<open>max_retries + 1\<close> times. When the first \<open>k \<le> max_retries\<close> invocations raise an \<open>Exception\<close>
  and the next one returns, \<open>with_retry\<close> returns that value after \<open>k + 1\<close> invocations,
  having slept \<open>base_delay * 2 ^ attempt\<close> (exponential) or \<open>base_delay\<close> (otherwise) after
  each failed attempt; when the next one raises a \<open>BaseException\<close> instead, that exception
  passes through after the same sleeps; when all \<open>max_retries + 1\<close> invocations raise an
  \<open>Exception\<close>, it has slept after every attempt but the last and re-raises the error of
  the last invocation.
\<close>

theorem with_retry_attempts:
  assumes "0 \<le> max_retries"
  shows "snd (snd (with_retry coro_factory max_retries base_delay exponential)) \<le> nat max_retries + 1 \<and>
         (k \<le> nat max_retries \<and> (\<forall>i<k. \<exists>e. coro_factory i = RaisesException e) \<and>
          coro_factory k = Returns v
            \<longrightarrow> with_retry coro_factory max_retries base_delay exponential =
                  (Inr v, map (\<lambda>attempt. base_delay * (if exponential then 2 ^ attempt else 1)) [0..<k], k + 1)) \<and>
         (k \<le> nat max_retries \<and> (\<forall>i<k. \<exists>e. coro_factory i = RaisesException e) \<and>
          coro_factory k = RaisesBaseException b
            \<longrightarrow> with_retry coro_factory max_retries base_delay exponential =
                  (Inl (Propagate b),
                   map (\<lambda>attempt. base_delay * (if exponential then 2 ^ attempt else 1)) [0..<k], k + 1)) \<and>
         ((\<forall>i<nat max_retries. \<exists>e. coro_factory i = RaisesException e) \<and>
          coro_factory (nat max_retries) = RaisesException e_last
            \<longrightarrow> with_retry coro_factory max_retries base_delay exponential =
                  (Inl (Raise e_last),
                   map (\<lambda>attempt. base_delay * (if exponential then 2 ^ attempt else 1)) [0..<nat max_retries],
                   nat max_retries + 1))"
proof (intro conjI impI)
  show "snd (snd (with_retry coro_factory max_retries base_delay exponential)) \<le> nat max_retries + 1"
    unfolding with_retry_def
    using retry_loop_calls [of coro_factory max_retries base_delay exponential
        "[0..<nat (max_retries + 1)]" None "[]" 0] assms
    by (simp add: nat_add_distrib)
next
  assume a: "k \<le> nat max_retries \<and> (\<forall>i<k. \<exists>e. coro_factory i = RaisesException e) \<and>
          coro_factory k = Returns v"
  show "with_retry coro_factory max_retries base_delay exponential =
          (Inr v, map (\<lambda>attempt. base_delay * (if exponential then 2 ^ attempt else 1)) [0..<k], k + 1)"
    unfolding with_retry_def
    using retry_loop_stops [of 0 k coro_factory "Inr v" "nat (max_retries + 1)" max_retries
        base_delay exponential None "[]"] a assms
    by auto
next
  assume a: "k \<le> nat max_retries \<and> (\<forall>i<k. \<exists>e. coro_factory i = RaisesException e) \<and>
          coro_factory k = RaisesBaseException b"
  show "with_retry coro_factory max_retries base_delay exponential =
          (Inl (Propagate b),
           map (\<lambda>attempt. base_delay * (if exponential then 2 ^ attempt else 1)) [0..<k], k + 1)"
    unfolding with_retry_def
    using retry_loop_stops [of 0 k coro_factory "Inl (Propagate b)" "nat (max_retries + 1)" max_retries
        base_delay exponential None "[]"] a assms
    by auto
next
  assume a: "(\<forall>i<nat max_retries. \<exists>e. coro_factory i = RaisesException e) \<and>
          coro_factory (nat max_retries) = RaisesException e_last"
  have "\<forall>i. 0 \<le> i \<and> i < nat (max_retries + 1) \<longrightarrow> (\<exists>e. coro_factory i = RaisesException e)"
  proof (intro allI impI)
    fix i assume "0 \<le> i \<and> i < nat (max_retries + 1)"
    then have "i < nat max_retries \<or> i = nat max_retries" using assms by auto
    then show "\<exists>e. coro_factory i = RaisesException e" using a by auto
  qed
  moreover have "nat (max_retries + 1) - 1 = nat max_retries" using assms by auto
  ultimately show "with_retry coro_factory max_retries base_delay exponential =
                  (Inl (Raise e_last),
                   map (\<lambda>attempt. base_delay * (if exponential then 2 ^ attempt else 1)) [0..<nat max_retries],
                   nat max_retries + 1)"
    unfolding with_retry_def
    using retry_loop_exhausted [of 0 "nat (max_retries + 1)" coro_factory max_retries e_last
        base_delay exponential None "[]"] a assms
    by auto
qed

lemma with_retry_negative: "with_retry f (- 1) bd ex = (Inl RaiseTypeError, [], 0)"
  by (simp add: with_retry_def)

theorem with_retry_attempts_witness:
  "with_retry (\<lambda>i. if i < 2 then RaisesException ''ConnectionError'' else (Returns ''ok'' :: (string, string, string) invocation))
      2 (1 / 2) True = (Inr ''ok'', [1 / 2, 1], 3) \<and>
   with_retry (\<lambda>i. if i < 1 then RaisesException ''ConnectionError'' else (RaisesBaseException ''CancelledError'' :: (string, string, string) invocation))
      2 (1 / 2) True = (Inl (Propagate ''CancelledError''), [1 / 2], 2) \<and>
   with_retry (\<lambda>i. (RaisesException i :: (nat, string, string) invocation)) 2 (1 / 2) False =
     (Inl (Raise 2), [1 / 2, 1 / 2], 3)"
  using
    with_retry_attempts [of 2 "\<lambda>i. if i < 2 then RaisesException ''ConnectionError'' else (Returns ''ok'' :: (string, string, string) invocation)"
      "1 / 2" True 2 "''ok''" "''CancelledError''" "''ConnectionError''"]
    with_retry_attempts [of 2 "\<lambda>i. if i < 1 then RaisesException ''ConnectionError'' else (RaisesBaseException ''CancelledError'' :: (string, string, string) invocation)"
      "1 / 2" True 1 "''ok''" "''CancelledError''" "''ConnectionError''"]
    with_retry_attempts [of 2 "\<lambda>i. (RaisesException i :: (nat, string, string) invocation)" "1 / 2" False 0 "''ok''" "''CancelledError''" 2]
  by (simp add: upt_rec)

section \<open>Proofs: QueryCache\<close>

lemma cache_step_ttl: "ttl (cache_step H self c) = ttl self"
  by (cases c)
     (auto simp: QueryCache_get_def QueryCache_set_def QueryCache_clear_def
        QueryCache_clear_expired_def Let_def split: option.splits)

lemma cache_run_ttl: "ttl (cache_run H self cs) = ttl self"
  by (induction cs arbitrary: self) (simp_all add: cache_step_ttl)

lemma cache_step_entry:
  assumes "\<not> sets_key H key c" "cache self key = None \<or> cache self key = Some e"
  shows "cache (cache_step H self c) key = None \<or> cache (cache_step H self c) key = Some e"
  using assms
  by (cases c)
     (auto simp: QueryCache_get_def QueryCache_set_def QueryCache_clear_def
        QueryCache_clear_expired_def Let_def split: option.splits prod.splits)

lemma cache_run_entry:
  assumes "\<forall>c \<in> set cs. \<not> sets_key H key c" "cache self key = None \<or> cache self key = Some e"
  shows "cache (cache_run H self cs) key = None \<or> cache (cache_run H self cs) key = Some e"
  using assms
proof (induction cs arbitrary: self)
  case Nil
  then show ?case by simp
next
  case (Cons c cs)
  have "cache (cache_step H self c) key = None \<or> cache (cache_step H self c) key = Some e"
    using cache_step_entry [of H key c self e] Cons.prems by simp
  then show ?case using Cons.IH [of "cache_step H self c"] Cons.prems by simp
qed

lemma cache_step_absent:
  assumes "\<not> sets_key H key c" "cache self key = None"
  shows "cache (cache_step H self c) key = None"
  using assms
  by (cases c)
     (auto simp: QueryCache_get_def QueryCache_set_def QueryCache_clear_def
        QueryCache_clear_expired_def Let_def split: option.splits prod.splits)

lemma cache_run_absent:
  assumes "\<forall>c \<in> set cs. \<not> sets_key H key c" "cache self key = None"
  shows "cache (cache_run H self cs) key = None"
  using assms
proof (induction cs arbitrary: self)
  case Nil
  then show ?case by simp
next
  case (Cons c cs)
  then show ?case using cache_step_absent [of H key c self] by simp
qed

text \<open>
  C6. \<open>get\<close> returns \<open>None\<close> for a key under which nothing was ever set (whatever else was
  called on the cache since its creation); and it returns \<open>None\<close> when the TTL has elapsed
  since the last \<open>set\<close> for the key, whatever was called in between, swept or not.
\<close>

theorem QueryCache_get_absent:
  "((\<forall>c \<in> set calls. \<not> sets_key H (cache_key H q m) c)
      \<longrightarrow> fst (QueryCache_get H (cache_run H (QueryCache_init ttl_seconds) calls) q m now) = None) \<and>
   ((\<forall>c \<in> set calls. \<not> sets_key H (cache_key H q m) c) \<and> real_of_int (ttl self) \<le> now - t
      \<longrightarrow> fst (QueryCache_get H (cache_run H (QueryCache_set H self q m v t) calls) q m now) = None)"
proof (intro conjI impI)
  assume a: "\<forall>c \<in> set calls. \<not> sets_key H (cache_key H q m) c"
  have "cache (cache_run H (QueryCache_init ttl_seconds) calls) (cache_key H q m) = None"
    using cache_run_absent [OF a] by (simp add: QueryCache_init_def)
  then show "fst (QueryCache_get H (cache_run H (QueryCache_init ttl_seconds) calls) q m now) = None"
    by (simp add: QueryCache_get_def)
next
  assume a: "(\<forall>c \<in> set calls. \<not> sets_key H (cache_key H q m) c) \<and> real_of_int (ttl self) \<le> now - t"
  let ?s = "cache_run H (QueryCache_set H self q m v t) calls"
  have "cache ?s (cache_key H q m) = None \<or> cache ?s (cache_key H q m) = Some (v, t)"
    using cache_run_entry [of calls H "cache_key H q m" "QueryCache_set H self q m v t" "(v, t)"] a
    by (simp add: QueryCache_set_def)
  moreover have "ttl ?s = ttl self" by (simp add: cache_run_ttl QueryCache_set_def)
  ultimately show "fst (QueryCache_get H ?s q m now) = None"
    using a by (auto simp: QueryCache_get_def)
qed

theorem QueryCache_get_absent_witness:
  "fst (QueryCache_get (\<lambda>s. s)
          (cache_run (\<lambda>s. s) (QueryCache_init 3600) [CallSet ''other query'' ''gpt'' ''v'' 5])
          ''query'' ''gpt'' 10) = None \<and>
   fst (QueryCache_get (\<lambda>s. s)
          (cache_run (\<lambda>s. s)
             (QueryCache_set (\<lambda>s. s) (QueryCache_init 3600) ''query'' ''gpt'' ''answer'' 0)
             [CallGet ''query'' ''gpt'' 100, CallSet ''other query'' ''gpt'' ''v'' 200])
          ''query'' ''gpt'' 3600) = None"
  using
    QueryCache_get_absent [of "[CallSet ''other query'' ''gpt'' ''v'' 5]" "\<lambda>s. s" "''query''" "''gpt''"
      3600 10 "QueryCache_init 3600" 0 "''answer''"]
    QueryCache_get_absent [of "[CallGet ''query'' ''gpt'' 100, CallSet ''other query'' ''gpt'' ''v'' 200]"
      "\<lambda>s. s" "''query''" "''gpt''" 3600 3600 "QueryCache_init 3600" 0 "''answer''"]
  by (simp add: cache_key_def QueryCache_init_def)

section \<open>Proofs: CircuitBreaker\<close>










section \<open>Proofs: the predictions table\<close>

lemma update_fetched_map:
  assumes "\<forall>(i, p) \<in> set fetched. \<forall>r \<in> set rows. id' r = i \<longrightarrow> prediction r = p"
  shows "update_fetched fetched gt rows =
           map (\<lambda>r. if id' r \<in> fst ` set fetched then backfilled gt r else r) rows"
  using assms
proof (induction fetched arbitrary: rows)
  case Nil
  show ?case by simp
next
  case (Cons f fetched)
  obtain i p where f: "f = (i, p)" by (cases f)
  let ?upd = "\<lambda>r. if id' r = i
                      then r\<lparr>ground_truth := Some gt, correct := Some (if check_correctness p gt then 1 else 0)\<rparr>
                      else r"
  have pres: "\<forall>(j, q) \<in> set fetched. \<forall>r \<in> set (map ?upd rows). id' r = j \<longrightarrow> prediction r = q"
    using Cons.prems by (auto simp: f)
  have "update_fetched (f # fetched) gt rows = update_fetched fetched gt (map ?upd rows)"
    by (simp add: f Let_def)
  also have "\<dots> = map (\<lambda>r. if id' r \<in> fst ` set fetched then backfilled gt r else r) (map ?upd rows)"
    using Cons.IH [OF pres] .
  also have "\<dots> = map (\<lambda>r. if id' r \<in> fst ` set (f # fetched) then backfilled gt r else r) rows"
  proof -
    have "(if id' (?upd r) \<in> fst ` set fetched then backfilled gt (?upd r) else ?upd r) =
          (if id' r \<in> fst ` set (f # fetched) then backfilled gt r else r)" if "r \<in> set rows" for r
    proof (cases "id' r = i")
      case True
      then have "prediction r = p" using Cons.prems that by (auto simp: f)
      then show ?thesis using True by (simp add: f backfilled_def)
    next
      case False
      then show ?thesis by (simp add: f)
    qed
    then show ?thesis by (simp add: comp_def)
  qed
  finally show ?case .
qed

lemma record_outcome_map:
  assumes "distinct (map id' (predictions self))"
  shows "predictions (record_outcome H self query gt) =
           map (\<lambda>r. if query_hash r = CalibrationTracker_query_hash H query then backfilled gt r else r)
             (predictions self)"
proof -
  let ?q = "CalibrationTracker_query_hash H query"
  let ?fetched = "map (\<lambda>r. (id' r, prediction r)) (filter (\<lambda>r. query_hash r = ?q) (predictions self))"
  have uniq: "r = r'" if "r \<in> set (predictions self)" "r' \<in> set (predictions self)" "id' r = id' r'" for r r'
    using assms that by (meson distinct_map inj_onD)
  have c: "\<forall>(i, p) \<in> set ?fetched. \<forall>r \<in> set (predictions self). id' r = i \<longrightarrow> prediction r = p"
    using uniq by auto
  have "id' r \<in> fst ` set ?fetched \<longleftrightarrow> query_hash r = ?q" if "r \<in> set (predictions self)" for r
    using uniq that by (force simp: image_iff)
  then show ?thesis
    by (simp add: record_outcome_def Let_def update_fetched_map [OF c])
qed

lemma record_prediction_constraints:
  assumes "table_constraints self"
  shows "table_constraints (record_prediction H self m q c p ts)"
proof -
  let ?q = "CalibrationTracker_query_hash H q"
  let ?kept = "filter (\<lambda>r. \<not> (model r = m \<and> query_hash r = ?q)) (predictions self)"
  have d1: "distinct (map id' ?kept)" and d2: "distinct (map (\<lambda>r. (model r, query_hash r)) ?kept)"
    using assms by (simp_all add: table_constraints_def distinct_map_filter)
  have le: "\<forall>r \<in> set ?kept. id' r \<le> sqlite_sequence self"
    using assms by (simp add: table_constraints_def)
  then have fresh: "sqlite_sequence self + 1 \<notin> id' ` set ?kept" by force
  have nokey: "(m, ?q) \<notin> (\<lambda>r. (model r, query_hash r)) ` set ?kept" by auto
  show ?thesis
    unfolding table_constraints_def record_prediction_def Let_def
    using d1 d2 le fresh nokey by (simp add: le_Suc_eq)
qed

lemma record_prediction_one_row:
  "filter (\<lambda>r. model r = m \<and> query_hash r = CalibrationTracker_query_hash H q)
     (predictions (record_prediction H self m q c p ts)) =
   [\<lparr>id' = sqlite_sequence self + 1, model = m, query_hash = CalibrationTracker_query_hash H q,
      stated_confidence = c, prediction = p, ground_truth = None, correct = None, timestamp = ts\<rparr>]"
proof -
  have "filter (\<lambda>r. model r = m \<and> query_hash r = k) (filter (\<lambda>r. \<not> (model r = m \<and> query_hash r = k)) rows) = []" for k rows
    by (induction rows) auto
  then show ?thesis by (simp add: record_prediction_def Let_def)
qed

lemma record_prediction_other_rows:
  "filter (\<lambda>r. \<not> (model r = m \<and> query_hash r = CalibrationTracker_query_hash H q))
     (predictions (record_prediction H self m q c p ts)) =
   filter (\<lambda>r. \<not> (model r = m \<and> query_hash r = CalibrationTracker_query_hash H q)) (predictions self)"
  by (simp add: record_prediction_def Let_def)

lemma backfilled_fields:
  "id' (backfilled gt r) = id' r" "model (backfilled gt r) = model r"
  "query_hash (backfilled gt r) = query_hash r" "prediction (backfilled gt r) = prediction r"
  "stated_confidence (backfilled gt r) = stated_confidence r"
  "ground_truth (backfilled gt r) = Some gt"
  "correct (backfilled gt r) = Some (if check_correctness (prediction r) gt then 1 else 0)"
  by (simp_all add: backfilled_def)

lemma record_outcome_constraints:
  assumes "table_constraints self"
  shows "table_constraints (record_outcome H self q gt)"
proof -
  have d: "distinct (map id' (predictions self))" using assms by (simp add: table_constraints_def)
  have seq: "sqlite_sequence (record_outcome H self q gt) = sqlite_sequence self"
    by (simp add: record_outcome_def Let_def)
  have ids: "map id' (predictions (record_outcome H self q gt)) = map id' (predictions self)"
    unfolding record_outcome_map [OF d] by (simp add: backfilled_fields comp_def if_distrib cong: if_cong)
  have keys: "map (\<lambda>r. (model r, query_hash r)) (predictions (record_outcome H self q gt)) =
              map (\<lambda>r. (model r, query_hash r)) (predictions self)"
    unfolding record_outcome_map [OF d] by (simp add: backfilled_fields comp_def if_distrib cong: if_cong)
  have "id' ` set (predictions (record_outcome H self q gt)) = id' ` set (predictions self)"
    using ids by (metis set_map)
  then have le: "\<forall>r \<in> set (predictions (record_outcome H self q gt)). id' r \<le> sqlite_sequence self"
    using assms unfolding table_constraints_def by (metis (no_types, lifting) image_iff)
  show ?thesis
    using assms le unfolding table_constraints_def ids keys seq by simp
qed

text \<open>
  C3. On a table that satisfies its constraints: after \<open>record_prediction\<close> the constraints
  still hold (at most one row per (model, query_hash)), exactly one row has the given model
  and query hash, it carries the new confidence and prediction, and the rows of all other
  keys are as before; after \<open>record_outcome\<close> the constraints still hold, the rows keep
  their model, query hash and prediction, and every row with the query's hash has
  \<open>ground_truth\<close> and \<open>correct\<close> set.
\<close>

theorem calibration_upsert_and_backfill:
  assumes "table_constraints self"
  shows "table_constraints (record_prediction H self m q c p ts) \<and>
         filter (\<lambda>r. model r = m \<and> query_hash r = CalibrationTracker_query_hash H q)
           (predictions (record_prediction H self m q c p ts)) =
           [\<lparr>id' = sqlite_sequence self + 1, model = m, query_hash = CalibrationTracker_query_hash H q,
             stated_confidence = c, prediction = p, ground_truth = None, correct = None,
             timestamp = ts\<rparr>] \<and>
         filter (\<lambda>r. \<not> (model r = m \<and> query_hash r = CalibrationTracker_query_hash H q))
           (predictions (record_prediction H self m q c p ts)) =
           filter (\<lambda>r. \<not> (model r = m \<and> query_hash r = CalibrationTracker_query_hash H q))
             (predictions self) \<and>
         table_constraints (record_outcome H self q gt) \<and>
         map (\<lambda>r. (model r, query_hash r, prediction r)) (predictions (record_outcome H self q gt)) =
           map (\<lambda>r. (model r, query_hash r, prediction r)) (predictions self) \<and>
         (\<forall>r \<in> set (predictions (record_outcome H self q gt)).
            query_hash r = CalibrationTracker_query_hash H q \<longrightarrow>
              ground_truth r = Some gt \<and>
              correct r = Some (if check_correctness (prediction r) gt then 1 else 0))"
proof -
  have d: "distinct (map id' (predictions self))" using assms by (simp add: table_constraints_def)
  have m: "map (\<lambda>r. (model r, query_hash r, prediction r)) (predictions (record_outcome H self q gt)) =
           map (\<lambda>r. (model r, query_hash r, prediction r)) (predictions self)"
    unfolding record_outcome_map [OF d] by (simp add: backfilled_fields comp_def if_distrib cong: if_cong)
  have b: "\<forall>r \<in> set (predictions (record_outcome H self q gt)).
            query_hash r = CalibrationTracker_query_hash H q \<longrightarrow>
              ground_truth r = Some gt \<and>
              correct r = Some (if check_correctness (prediction r) gt then 1 else 0)"
    unfolding record_outcome_map [OF d] by (auto simp: backfilled_fields)
  show ?thesis
    by (intro conjI record_prediction_constraints [OF assms] record_prediction_one_row
          record_prediction_other_rows record_outcome_constraints [OF assms] m b)
qed

theorem calibration_upsert_and_backfill_witness:
  "table_constraints
     \<lparr>predictions =
        [\<lparr>id' = 1, model = ''gemini'', query_hash = ''capital of Franc'', stated_confidence = 0.9,
           prediction = ''Paris'', ground_truth = None, correct = None,
           timestamp = ''2025-01-01T00:00:00''\<rparr>,
         \<lparr>id' = 2, model = ''llama'', query_hash = ''capital of Franc'', stated_confidence = 0.6,
           prediction = ''Lyon'', ground_truth = None, correct = None,
           timestamp = ''2025-01-01T00:00:01''\<rparr>],
      sqlite_sequence = 2\<rparr> \<and>
   table_constraints
     (record_prediction (\<lambda>s. s)
        \<lparr>predictions =
        [\<lparr>id' = 1, model = ''gemini'', query_hash = ''capital of Franc'', stated_confidence = 0.9,
           prediction = ''Paris'', ground_truth = None, correct = None,
           timestamp = ''2025-01-01T00:00:00''\<rparr>,
         \<lparr>id' = 2, model = ''llama'', query_hash = ''capital of Franc'', stated_confidence = 0.6,
           prediction = ''Lyon'', ground_truth = None, correct = None,
           timestamp = ''2025-01-01T00:00:01''\<rparr>],
      sqlite_sequence = 2\<rparr>
        ''gemini'' ''capital of France?'' 0.7 ''It is Paris'' ''2025-01-01T00:00:02'') \<and>
   filter (\<lambda>r. model r = ''gemini'' \<and> query_hash r = ''capital of Franc'')
     (predictions
        (record_prediction (\<lambda>s. s)
           \<lparr>predictions =
        [\<lparr>id' = 1, model = ''gemini'', query_hash = ''capital of Franc'', stated_confidence = 0.9,
           prediction = ''Paris'', ground_truth = None, correct = None,
           timestamp = ''2025-01-01T00:00:00''\<rparr>,
         \<lparr>id' = 2, model = ''llama'', query_hash = ''capital of Franc'', stated_confidence = 0.6,
           prediction = ''Lyon'', ground_truth = None, correct = None,
           timestamp = ''2025-01-01T00:00:01''\<rparr>],
      sqlite_sequence = 2\<rparr>
           ''gemini'' ''capital of France?'' 0.7 ''It is Paris'' ''2025-01-01T00:00:02'')) =
     [\<lparr>id' = 3, model = ''gemini'', query_hash = ''capital of Franc'', stated_confidence = 0.7,
        prediction = ''It is Paris'', ground_truth = None, correct = None,
        timestamp = ''2025-01-01T00:00:02''\<rparr>] \<and>
   map ground_truth
     (predictions
        (record_outcome (\<lambda>s. s)
           \<lparr>predictions =
        [\<lparr>id' = 1, model = ''gemini'', query_hash = ''capital of Franc'', stated_confidence = 0.9,
           prediction = ''Paris'', ground_truth = None, correct = None,
           timestamp = ''2025-01-01T00:00:00''\<rparr>,
         \<lparr>id' = 2, model = ''llama'', query_hash = ''capital of Franc'', stated_confidence = 0.6,
           prediction = ''Lyon'', ground_truth = None, correct = None,
           timestamp = ''2025-01-01T00:00:01''\<rparr>],
      sqlite_sequence = 2\<rparr>
           ''capital of France?'' ''paris'')) = [Some ''paris'', Some ''paris'']"
proof -
  have h: "table_constraints
     \<lparr>predictions =
        [\<lparr>id' = 1, model = ''gemini'', query_hash = ''capital of Franc'', stated_confidence = 0.9,
           prediction = ''Paris'', ground_truth = None, correct = None,
           timestamp = ''2025-01-01T00:00:00''\<rparr>,
         \<lparr>id' = 2, model = ''llama'', query_hash = ''capital of Franc'', stated_confidence = 0.6,
           prediction = ''Lyon'', ground_truth = None, correct = None,
           timestamp = ''2025-01-01T00:00:01''\<rparr>],
      sqlite_sequence = 2\<rparr>"
    by (simp add: table_constraints_def)
  have e: "predictions
        (record_outcome (\<lambda>s. s)
           \<lparr>predictions =
        [\<lparr>id' = 1, model = ''gemini'', query_hash = ''capital of Franc'', stated_confidence = 0.9,
           prediction = ''Paris'', ground_truth = None, correct = None,
           timestamp = ''2025-01-01T00:00:00''\<rparr>,
         \<lparr>id' = 2, model = ''llama'', query_hash = ''capital of Franc'', stated_confidence = 0.6,
           prediction = ''Lyon'', ground_truth = None, correct = None,
           timestamp = ''2025-01-01T00:00:01''\<rparr>],
      sqlite_sequence = 2\<rparr>
           ''capital of France?'' ''paris'') =
        [\<lparr>id' = 1, model = ''gemini'', query_hash = ''capital of Franc'', stated_confidence = 0.9,
           prediction = ''Paris'', ground_truth = Some ''paris'', correct = Some 1,
           timestamp = ''2025-01-01T00:00:00''\<rparr>,
         \<lparr>id' = 2, model = ''llama'', query_hash = ''capital of Franc'', stated_confidence = 0.6,
           prediction = ''Lyon'', ground_truth = Some ''paris'', correct = Some 0,
           timestamp = ''2025-01-01T00:00:01''\<rparr>]"
    by code_simp
  show ?thesis
    using h e calibration_upsert_and_backfill [OF h, of "\<lambda>s. s" "''gemini''" "''capital of France?''"
        "0.7" "''It is Paris''" "''2025-01-01T00:00:02''" "''paris''"]
    by (simp add: CalibrationTracker_query_hash_def)
qed

end
